theory Spec2Isabelle
  imports Main
begin

section \<open>Python values: outcomes of a call, list indexing\<close>

text \<open>
  A call of the program either returns a value, raises an exception, or does not
  return at all. The outcome of a call is \<open>Some (Inr v)\<close> for a returned value,
  \<open>Some (Inl e)\<close> for a raised exception and \<open>None\<close> for a call that runs forever.
\<close>

datatype error = IndexError

type_synonym 'a outcome = "(error + 'a) option"

definition returns :: "'a \<Rightarrow> 'a outcome" where
  "returns v = Some (Inr v)"

definition raises :: "error \<Rightarrow> 'a outcome" where
  "raises e = Some (Inl e)"

text \<open>
  \<open>xs[i]\<close> on a Python list: an index in \<open>[0, len)\<close> reads from the front, an index
  in \<open>[-len, 0)\<close> reads from the end, any other index raises IndexError.
\<close>

definition py_index :: "'a list \<Rightarrow> int \<Rightarrow> error + 'a" where
  "py_index xs i =
     (let n = int (length xs)
      in if 0 \<le> i \<and> i < n then Inr (xs ! nat i)
         else if - n \<le> i \<and> i < 0 then Inr (xs ! nat (n + i))
         else Inl IndexError)"

section \<open>The board\<close>

text \<open>
  \<open>Board.board\<close> is a list of 8 lists of 8 one-character strings, read as
  \<open>board[x][y]\<close>: \<open>' '\<close> is an empty cell, \<open>'X'\<close> black and \<open>'O'\<close> white.
  \<open>at\<close> and \<open>put\<close> are the reads and writes whose indices come from \<open>range(8)\<close>;
  \<open>cell\<close> and \<open>set_cell\<close> are those at integer coordinates that the source has
  tested with \<open>is_on_board\<close> before.
\<close>

type_synonym 'a grid = "'a list list"

type_synonym board = "char grid"

definition wf_grid :: "'a grid \<Rightarrow> bool" where
  "wf_grid b = (length b = 8 \<and> (\<forall>col \<in> set b. length col = 8))"

definition at :: "'a grid \<Rightarrow> nat \<Rightarrow> nat \<Rightarrow> 'a" where
  "at b x y = b ! x ! y"

definition put :: "'a grid \<Rightarrow> nat \<Rightarrow> nat \<Rightarrow> 'a \<Rightarrow> 'a grid" where
  "put b x y v = b[x := (b ! x)[y := v]]"

definition cell :: "board \<Rightarrow> int \<Rightarrow> int \<Rightarrow> char" where
  "cell b x y = at b (nat x) (nat y)"

definition set_cell :: "board \<Rightarrow> int \<Rightarrow> int \<Rightarrow> char \<Rightarrow> board" where
  "set_cell b x y v = put b (nat x) (nat y) v"

definition is_on_board :: "int \<Rightarrow> int \<Rightarrow> bool" where
  "is_on_board x y = (0 \<le> x \<and> x \<le> 7 \<and> 0 \<le> y \<and> y \<le> 7)"

definition is_on_corner :: "int \<Rightarrow> int \<Rightarrow> bool" where
  "is_on_corner x y =
     ((x = 0 \<and> y = 0) \<or> (x = 7 \<and> y = 0) \<or> (x = 0 \<and> y = 7) \<or> (x = 7 \<and> y = 7))"

text \<open>The pairs \<open>(x, y)\<close> of \<open>for x in range(8): for y in range(8)\<close>, in that order.\<close>

definition squares :: "(nat \<times> nat) list" where
  "squares = List.product [0..<8] [0..<8]"

definition reset :: "board \<Rightarrow> board" where
  "reset b =
     (let b0 = fold (\<lambda>(x, y) b. put b x y CHR '' '') squares b;
          b1 = put b0 3 3 CHR ''X'';
          b2 = put b1 3 4 CHR ''O'';
          b3 = put b2 4 3 CHR ''O''
      in put b3 4 4 CHR ''X'')"

text \<open>\<open>Board()\<close>: eight fresh columns of eight blanks, then \<open>reset\<close>.\<close>

definition new_board :: board where
  "new_board = reset (replicate 8 (replicate 8 CHR '' ''))"

section \<open>Move validation\<close>

definition directions :: "(int \<times> int) list" where
  "directions = [(0, 1), (1, 1), (1, 0), (1, -1), (0, -1), (-1, -1), (-1, 0), (-1, 1)]"

text \<open>
  The loop \<open>while self.board[x][y] == other_tile\<close> of \<open>is_valid_move\<close>: each round
  takes one step and leaves the loop when the step left the board. The result is the
  position after the loop.
\<close>

partial_function (option) advance ::
  "board \<Rightarrow> char \<Rightarrow> int \<Rightarrow> int \<Rightarrow> int \<Rightarrow> int \<Rightarrow> (int \<times> int) option" where
  "advance b other_tile x_direction y_direction x y =
     (if cell b x y = other_tile then
        (if is_on_board (x + x_direction) (y + y_direction)
         then advance b other_tile x_direction y_direction (x + x_direction) (y + y_direction)
         else Some (x + x_direction, y + y_direction))
      else Some (x, y))"

declare advance.simps [code]

text \<open>
  The loop \<open>while True\<close> that goes in the reverse direction: one step back, leave
  when the original space is reached, otherwise append the position.
\<close>

partial_function (option) walk_back ::
  "int \<Rightarrow> int \<Rightarrow> int \<Rightarrow> int \<Rightarrow> int \<Rightarrow> int \<Rightarrow> (int \<times> int) list \<Rightarrow> (int \<times> int) list option" where
  "walk_back x_start y_start x_direction y_direction x y tiles_to_flip =
     (if x - x_direction = x_start \<and> y - y_direction = y_start then Some tiles_to_flip
      else walk_back x_start y_start x_direction y_direction
             (x - x_direction) (y - y_direction)
             (tiles_to_flip @ [(x - x_direction, y - y_direction)]))"

declare walk_back.simps [code]

text \<open>The body of the loop over the directions, for one direction.\<close>

definition scan_direction ::
  "board \<Rightarrow> char \<Rightarrow> char \<Rightarrow> int \<Rightarrow> int \<Rightarrow> int \<times> int \<Rightarrow> (int \<times> int) list
     \<Rightarrow> (int \<times> int) list option" where
  "scan_direction b tile other_tile x_start y_start d tiles_to_flip =
     (let x_direction = fst d; y_direction = snd d;
          x1 = x_start + x_direction; y1 = y_start + y_direction
      in if is_on_board x1 y1 \<and> cell b x1 y1 = other_tile then
           (let x2 = x1 + x_direction; y2 = y1 + y_direction
            in if \<not> is_on_board x2 y2 then Some tiles_to_flip
               else (case advance b other_tile x_direction y_direction x2 y2 of
                       None \<Rightarrow> None
                     | Some (x, y) \<Rightarrow>
                         if \<not> is_on_board x y then Some tiles_to_flip
                         else if cell b x y = tile
                           then walk_back x_start y_start x_direction y_direction x y tiles_to_flip
                           else Some tiles_to_flip))
         else Some tiles_to_flip)"

fun scan_directions ::
  "board \<Rightarrow> char \<Rightarrow> char \<Rightarrow> int \<Rightarrow> int \<Rightarrow> (int \<times> int) list \<Rightarrow> (int \<times> int) list
     \<Rightarrow> (int \<times> int) list option" where
  "scan_directions b tile other_tile x_start y_start [] tiles_to_flip = Some tiles_to_flip"
| "scan_directions b tile other_tile x_start y_start (d # ds) tiles_to_flip =
     (case scan_direction b tile other_tile x_start y_start d tiles_to_flip of
        None \<Rightarrow> None
      | Some tiles_to_flip' \<Rightarrow> scan_directions b tile other_tile x_start y_start ds tiles_to_flip')"

text \<open>
  \<open>is_valid_move\<close> returns \<open>False\<close> or the list of the tiles to flip: \<open>None\<close> is
  \<open>False\<close>. The method writes the tile on the board and restores the blank before it
  returns, so the board after the call is part of the result.
\<close>

definition is_valid_move ::
  "board \<Rightarrow> char \<Rightarrow> int \<Rightarrow> int \<Rightarrow> ((int \<times> int) list option \<times> board) outcome" where
  "is_valid_move b tile x_start y_start =
     (case py_index b x_start of
        Inl e \<Rightarrow> raises e
      | Inr col \<Rightarrow>
         (case py_index col y_start of
            Inl e \<Rightarrow> raises e
          | Inr c \<Rightarrow>
             if c \<noteq> CHR '' '' \<or> \<not> is_on_board x_start y_start then returns (None, b)
             else
               (let b1 = set_cell b x_start y_start tile;
                    other_tile = (if tile = CHR ''X'' then CHR ''O'' else CHR ''X'')
                in case scan_directions b1 tile other_tile x_start y_start directions [] of
                     None \<Rightarrow> None
                   | Some tiles_to_flip \<Rightarrow>
                       (let b2 = set_cell b1 x_start y_start CHR '' ''
                        in if length tiles_to_flip = 0 then returns (None, b2)
                           else returns (Some tiles_to_flip, b2)))))"

text \<open>Python's truth value of what \<open>is_valid_move\<close> returns: \<open>False\<close> and \<open>[]\<close> are false.\<close>

definition truthy :: "(int \<times> int) list option \<Rightarrow> bool" where
  "truthy v = (case v of None \<Rightarrow> False | Some tiles \<Rightarrow> tiles \<noteq> [])"

text \<open>The elements that a loop over the returned value visits.\<close>

definition the_list :: "(int \<times> int) list option \<Rightarrow> (int \<times> int) list" where
  "the_list v = (case v of None \<Rightarrow> [] | Some tiles \<Rightarrow> tiles)"

fun valid_moves_loop ::
  "char \<Rightarrow> (nat \<times> nat) list \<Rightarrow> board \<Rightarrow> (int \<times> int) list
     \<Rightarrow> ((int \<times> int) list \<times> board) outcome" where
  "valid_moves_loop tile [] b valid_moves = returns (valid_moves, b)"
| "valid_moves_loop tile ((x, y) # rest) b valid_moves =
     (case is_valid_move b tile (int x) (int y) of
        None \<Rightarrow> None
      | Some (Inl e) \<Rightarrow> raises e
      | Some (Inr (v, b')) \<Rightarrow>
          valid_moves_loop tile rest b'
            (if truthy v then valid_moves @ [(int x, int y)] else valid_moves))"

definition get_valid_moves :: "board \<Rightarrow> char \<Rightarrow> ((int \<times> int) list \<times> board) outcome" where
  "get_valid_moves b tile = valid_moves_loop tile squares b []"

text \<open>\<open>get_score\<close> returns the dictionary \<open>{'X': x_score, 'O': o_score}\<close>.\<close>

definition get_score :: "board \<Rightarrow> (char \<rightharpoonup> int)" where
  "get_score b =
     (let (x_score, o_score) =
            fold (\<lambda>(x, y) (x_score, o_score).
                    if at b x y = CHR ''X'' then (x_score + 1, o_score)
                    else if at b x y = CHR ''O'' then (x_score, o_score + 1)
                    else (x_score, o_score))
                 squares (0, 0)
      in [CHR ''X'' \<mapsto> x_score, CHR ''O'' \<mapsto> o_score])"

definition make_move :: "board \<Rightarrow> char \<Rightarrow> int \<Rightarrow> int \<Rightarrow> (bool \<times> board) outcome" where
  "make_move b tile x_start y_start =
     (case is_valid_move b tile x_start y_start of
        None \<Rightarrow> None
      | Some (Inl e) \<Rightarrow> raises e
      | Some (Inr (tiles_to_flip, b1)) \<Rightarrow>
          if \<not> truthy tiles_to_flip then returns (False, b1)
          else returns (True,
                 fold (\<lambda>(x, y) b. set_cell b x y tile) (the_list tiles_to_flip)
                      (set_cell b1 x_start y_start tile)))"

text \<open>
  \<open>copy\<close>: a new \<open>Board()\<close>, then \<open>dupe_board.board[x][y] = self.board[x][y]\<close> for
  every square. The read raises IndexError on a board that has no such cell; the write
  goes to the new board, which has all of them.
\<close>

fun copy_loop :: "board \<Rightarrow> (nat \<times> nat) list \<Rightarrow> board \<Rightarrow> board outcome" where
  "copy_loop b [] dupe_board = returns dupe_board"
| "copy_loop b ((x, y) # rest) dupe_board =
     (case py_index b (int x) of
        Inl e \<Rightarrow> raises e
      | Inr col \<Rightarrow>
          (case py_index col (int y) of
             Inl e \<Rightarrow> raises e
           | Inr c \<Rightarrow> copy_loop b rest (put dupe_board x y c)))"

definition copy :: "board \<Rightarrow> board outcome" where
  "copy b = copy_loop b squares new_board"

text \<open>
  The numeric state is an 8 by 8 array read as \<open>state[i, j]\<close>; its entries are the
  numbers 1, -1 and 0, which the array's number type holds exactly.
\<close>

definition list_to_array :: "board \<Rightarrow> int grid" where
  "list_to_array b =
     fold (\<lambda>(i, j) state.
             put state i j
               (if at b j i = CHR ''X'' then 1
                else if at b j i = CHR ''O'' then - 1
                else 0))
          squares (replicate 8 (replicate 8 0))"

definition array_to_list :: "board \<Rightarrow> int grid \<Rightarrow> board" where
  "array_to_list b state =
     fold (\<lambda>(i, j) b.
             put b j i
               (if at state i j = 1 then CHR ''X''
                else if at state i j = - 1 then CHR ''O''
                else CHR '' ''))
          squares b"

section \<open>The game environment\<close>

record othello_game =
  board :: board
  player_tile :: char
  computer_tile :: char
  player_score :: int
  computer_score :: int
  interactive :: bool
  stepper :: bool
  show_hints :: bool

text \<open>\<open>OthelloGame(opponent, interactive, show_steps)\<close>; the opponent is not stored.\<close>

definition othello_game_init :: "bool \<Rightarrow> bool \<Rightarrow> othello_game" where
  "othello_game_init interactive_arg show_steps =
     \<lparr>board = new_board, player_tile = CHR ''X'', computer_tile = CHR ''O'',
      player_score = 0, computer_score = 0, interactive = interactive_arg,
      stepper = show_steps, show_hints = False\<rparr>"

definition game_reset :: "othello_game \<Rightarrow> othello_game" where
  "game_reset g = g\<lparr>board := reset (board g), player_score := 0, computer_score := 0\<rparr>"

definition get_state :: "othello_game \<Rightarrow> int grid" where
  "get_state g = list_to_array (board g)"

text \<open>
  The end of \<open>step\<close>: \<open>self.board = next_board.copy()\<close> and the returned triple
  \<open>(reward, self.board, terminal)\<close>, together with the game after the call.
\<close>

definition step_return ::
  "othello_game \<Rightarrow> board \<Rightarrow> int \<Rightarrow> bool \<Rightarrow> ((int \<times> board \<times> bool) \<times> othello_game) outcome" where
  "step_return g next_board reward terminal =
     (case copy next_board of
        None \<Rightarrow> None
      | Some (Inl e) \<Rightarrow> raises e
      | Some (Inr b) \<Rightarrow>
          (let g' = g\<lparr>board := b\<rparr>
           in returns ((reward, board g', terminal), g')))"

text \<open>
  \<open>step\<close> with the action \<open>[action[0], action[1]]\<close>. The board is copied before
  the action is validated, so a board that \<open>copy\<close> cannot read raises first. Drawing the board when
  \<open>stepper\<close> is set only prints and is left out. In the test of the final position,
  \<open>and\<close> asks for the moves of the computer's tile only when the player's tile has none.
\<close>

definition step ::
  "othello_game \<Rightarrow> int \<times> int \<Rightarrow> ((int \<times> board \<times> bool) \<times> othello_game) outcome" where
  "step g action =
     (case copy (board g) of
        None \<Rightarrow> None
      | Some (Inl e) \<Rightarrow> raises e
      | Some (Inr next_board) \<Rightarrow>
         (case is_valid_move (board g) (player_tile g) (fst action) (snd action) of
            None \<Rightarrow> None
          | Some (Inl e) \<Rightarrow> raises e
          | Some (Inr (v, b1)) \<Rightarrow>
              if \<not> truthy v then returns ((- 10, b1, False), g\<lparr>board := b1\<rparr>)
              else
                (case make_move next_board (player_tile g) (fst action) (snd action) of
                   None \<Rightarrow> None
                 | Some (Inl e) \<Rightarrow> raises e
                 | Some (Inr (made, nb1)) \<Rightarrow>
                    (case get_valid_moves nb1 (player_tile g) of
                       None \<Rightarrow> None
                     | Some (Inl e) \<Rightarrow> raises e
                     | Some (Inr (player_moves, nb2)) \<Rightarrow>
                         if player_moves \<noteq> [] then step_return g nb2 0 False
                         else
                           (case get_valid_moves nb2 (computer_tile g) of
                              None \<Rightarrow> None
                            | Some (Inl e) \<Rightarrow> raises e
                            | Some (Inr (computer_moves, nb3)) \<Rightarrow>
                                if computer_moves \<noteq> [] then step_return g nb3 0 False
                                else step_return g nb3
                                       (if player_score g > computer_score g then 1
                                        else if player_score g < computer_score g then - 1
                                        else 0)
                                       True)))))"

section \<open>Notions used to state the properties\<close>

text \<open>
  A board is well formed when it has the shape that \<open>Board()\<close> builds, and its cells
  are valid when each of them is a blank, \<open>'X'\<close> or \<open>'O'\<close>.
\<close>

definition valid_cell :: "char \<Rightarrow> bool" where
  "valid_cell c = (c = CHR '' '' \<or> c = CHR ''X'' \<or> c = CHR ''O'')"

definition cells_ok :: "board \<Rightarrow> bool" where
  "cells_ok b = (\<forall>col \<in> set b. \<forall>c \<in> set col. valid_cell c)"

text \<open>The number of cells of the board that hold a given character.\<close>

definition count_cells :: "board \<Rightarrow> char \<Rightarrow> nat" where
  "count_cells b c = length (filter (\<lambda>c'. c' = c) (concat b))"

text \<open>
  The \<open>n\<close> cells next to \<open>(x, y)\<close> in the direction \<open>d\<close>, the farthest one first,
  and the condition under which \<open>is_valid_move\<close> takes them: the cell after them is
  on the board and holds the player's tile.
\<close>

definition ray :: "int \<Rightarrow> int \<Rightarrow> int \<times> int \<Rightarrow> nat \<Rightarrow> (int \<times> int) list" where
  "ray x y d n = map (\<lambda>j. (x + int j * fst d, y + int j * snd d)) (rev [1..<Suc n])"

definition anchored :: "board \<Rightarrow> char \<Rightarrow> int \<Rightarrow> int \<Rightarrow> int \<times> int \<Rightarrow> nat \<Rightarrow> bool" where
  "anchored b tile x y d n =
     (n = 0 \<or> (is_on_board (x + int (Suc n) * fst d) (y + int (Suc n) * snd d) \<and>
               cell b (x + int (Suc n) * fst d) (y + int (Suc n) * snd d) = tile))"

text \<open>The board that \<open>make_move\<close> leaves when the move is valid.\<close>

definition flipped :: "board \<Rightarrow> char \<Rightarrow> int \<Rightarrow> int \<Rightarrow> (int \<times> int) list \<Rightarrow> board" where
  "flipped b tile x y tiles =
     fold (\<lambda>(x, y) b. set_cell b x y tile) tiles (set_cell b x y tile)"

text \<open>
  The boards that a \<open>Board\<close> object can hold: the one its constructor builds, and
  those that \<open>reset\<close> and \<open>make_move\<close> (with any tile and any coordinates) leave.
\<close>

inductive reachable :: "board \<Rightarrow> bool" where
  reachable_new: "reachable new_board"
| reachable_reset: "reachable b \<Longrightarrow> reachable (reset b)"
| reachable_move:
    "reachable b \<Longrightarrow> make_move b tile x y = returns (made, b') \<Longrightarrow> reachable b'"

text \<open>
  The game of the training script: \<open>OthelloGame(interactive=False, show_steps=False)\<close>
  followed by \<open>reset()\<close>.
\<close>

definition training_game :: othello_game where
  "training_game = game_reset (othello_game_init False False)"

text \<open>A board with two white tiles between the corner \<open>(0, 0)\<close> and a black tile.\<close>

definition two_in_a_row :: board where
  "two_in_a_row =
     [''        '', ''O       '', ''O       '', ''X       '',
      ''        '', ''        '', ''        '', ''        '']"

section \<open>Outcomes and grids\<close>

lemma outcome_distinct [simp]:
  "returns v \<noteq> raises e" "raises e \<noteq> returns v" "returns v \<noteq> None" "raises e \<noteq> None"
  "None \<noteq> returns v" "None \<noteq> raises e"
  by (simp_all add: returns_def raises_def)

lemma returns_inject [simp]: "(returns v = returns w) = (v = w)"
  by (simp add: returns_def)

lemma wf_grid_put [simp]: "wf_grid (put b x y v) = wf_grid b"
proof -
  have "length (b[x := (b ! x)[y := v]] ! i) = length (b ! i)" if "i < length b" for i
    using that by (cases "i = x") simp_all
  then show ?thesis
    by (simp add: wf_grid_def put_def all_set_conv_all_nth)
qed

lemma at_put:
  "x < length b \<Longrightarrow> y < length (b ! x) \<Longrightarrow>
   at (put b x y v) i j = (if i = x \<and> j = y then v else at b i j)"
  by (auto simp: at_def put_def nth_list_update)

lemma put_at_same: "put b x y (at b x y) = b"
  by (simp add: put_def at_def)

lemma put_put_same: "put (put b x y v) x y w = put b x y w"
  by (cases "x < length b") (simp_all add: put_def list_update_beyond)

lemma py_index_Inr:
  "py_index xs i = Inr c \<Longrightarrow> 0 \<le> i \<Longrightarrow> nat i < length xs \<and> c = xs ! nat i"
  by (auto simp: py_index_def Let_def split: if_splits)

lemma is_valid_move_board:
  assumes "is_valid_move b tile x y = returns (v, b')"
  shows "b' = b"
proof -
  obtain col where col: "py_index b x = Inr col"
    using assms by (cases "py_index b x") (simp_all add: is_valid_move_def)
  obtain c where c: "py_index col y = Inr c"
    using assms col by (cases "py_index col y") (simp_all add: is_valid_move_def)
  show ?thesis
  proof (cases "c \<noteq> CHR '' '' \<or> \<not> is_on_board x y")
    case True
    then show ?thesis using assms col c by (auto simp: is_valid_move_def)
  next
    case False
    then have on: "0 \<le> x" "0 \<le> y" and blank: "c = CHR '' ''"
      by (auto simp: is_on_board_def)
    from py_index_Inr [OF col on(1)] have x: "nat x < length b" "col = b ! nat x" by auto
    from py_index_Inr [OF c on(2)] have y: "nat y < length col" "c = col ! nat y" by auto
    have restore: "set_cell (set_cell b x y tile) x y CHR '' '' = b"
      using x y blank put_at_same [of b "nat x" "nat y"]
      by (simp add: set_cell_def put_put_same at_def)
    show ?thesis
      using assms col c False restore
      by (auto simp: is_valid_move_def Let_def split: option.splits if_splits)
  qed
qed

section \<open>The two while statements of a direction\<close>

lemma ray_0 [simp]: "ray x y d 0 = []"
  by (simp add: ray_def)

lemma ray_Suc: "ray x y d (Suc n) = (x + int (Suc n) * fst d, y + int (Suc n) * snd d) # ray x y d n"
  by (simp add: ray_def)

lemma advance_returns:
  assumes nz: "xd \<noteq> 0 \<or> yd \<noteq> 0" and on: "is_on_board x y"
  shows "\<exists>k. advance b other xd yd x y = Some (x + int k * xd, y + int k * yd)"
proof -
  define m where "m = (\<lambda>x y. if 0 < xd then nat (8 - x) else if xd < 0 then nat (x + 1)
                             else if 0 < yd then nat (8 - y) else nat (y + 1))"
  from on show ?thesis
  proof (induction "m x y" arbitrary: x y rule: less_induct)
    case less
    show ?case
    proof (cases "cell b x y = other")
      case False
      then have "advance b other xd yd x y = Some (x, y)"
        by (subst advance.simps) simp
      then show ?thesis
        by (intro exI [of _ 0]) simp
    next
      case True
      show ?thesis
      proof (cases "is_on_board (x + xd) (y + yd)")
        case False
        with True have "advance b other xd yd x y = Some (x + xd, y + yd)"
          by (subst advance.simps) simp
        then show ?thesis
          by (intro exI [of _ 1]) simp
      next
        case next_on: True
        have "m (x + xd) (y + yd) < m x y"
          using less.prems next_on nz by (auto simp: m_def is_on_board_def)
        from less.hyps [OF this next_on] obtain k where
          k: "advance b other xd yd (x + xd) (y + yd) =
                Some (x + xd + int k * xd, y + yd + int k * yd)"
          by blast
        have "advance b other xd yd x y = advance b other xd yd (x + xd) (y + yd)"
          using True next_on by (subst advance.simps) simp
        with k show ?thesis
          by (intro exI [of _ "Suc k"]) (simp add: algebra_simps)
      qed
    qed
  qed
qed

lemma walk_back_returns:
  assumes nz: "xd \<noteq> 0 \<or> yd \<noteq> 0"
  shows "walk_back xs ys xd yd (xs + int (Suc n) * xd) (ys + int (Suc n) * yd) acc =
           Some (acc @ ray xs ys (xd, yd) n)"
proof (induction n arbitrary: acc)
  case 0
  show ?case
    by (subst walk_back.simps) simp
next
  case (Suc n)
  have prev: "xs + int (Suc (Suc n)) * xd - xd = xs + int (Suc n) * xd"
             "ys + int (Suc (Suc n)) * yd - yd = ys + int (Suc n) * yd"
    by (simp_all add: algebra_simps)
  have "\<not> (xs + int (Suc n) * xd = xs \<and> ys + int (Suc n) * yd = ys)"
    using nz by auto
  then have "walk_back xs ys xd yd (xs + int (Suc (Suc n)) * xd) (ys + int (Suc (Suc n)) * yd) acc =
        walk_back xs ys xd yd (xs + int (Suc n) * xd) (ys + int (Suc n) * yd)
          (acc @ [(xs + int (Suc n) * xd, ys + int (Suc n) * yd)])"
    by (subst walk_back.simps) (simp only: prev if_False)
  then show ?case
    by (simp only: Suc.IH ray_Suc fst_conv snd_conv) simp
qed

lemma scan_direction_returns:
  assumes nz: "fst d \<noteq> 0 \<or> snd d \<noteq> 0"
  shows "\<exists>n. scan_direction b tile other xs ys d acc = Some (acc @ ray xs ys d n) \<and>
             (0 < n \<longrightarrow> is_on_board (xs + int (Suc n) * fst d) (ys + int (Suc n) * snd d) \<and>
                         cell b (xs + int (Suc n) * fst d) (ys + int (Suc n) * snd d) = tile)"
proof -
  obtain xd yd where d: "d = (xd, yd)" by (cases d)
  have nz': "xd \<noteq> 0 \<or> yd \<noteq> 0" using nz d by simp
  let ?none = "scan_direction b tile other xs ys d acc = Some acc"
  have none: ?thesis if ?none
    using that by (intro exI [of _ 0]) simp
  show ?thesis
  proof (cases "is_on_board (xs + xd) (ys + yd) \<and> cell b (xs + xd) (ys + yd) = other")
    case False
    then have ?none by (auto simp: scan_direction_def d Let_def)
    then show ?thesis by (rule none)
  next
    case first: True
    show ?thesis
    proof (cases "is_on_board (xs + xd + xd) (ys + yd + yd)")
      case False
      with first have ?none by (simp add: scan_direction_def d Let_def)
      then show ?thesis by (rule none)
    next
      case second: True
      from advance_returns [OF nz' second, of b other] obtain k where
        k: "advance b other xd yd (xs + xd + xd) (ys + yd + yd) =
              Some (xs + xd + xd + int k * xd, ys + yd + yd + int k * yd)"
        by blast
      let ?x = "xs + xd + xd + int k * xd" and ?y = "ys + yd + yd + int k * yd"
      have pos: "?x = xs + int (Suc (Suc k)) * xd" "?y = ys + int (Suc (Suc k)) * yd"
        by (simp_all add: algebra_simps)
      show ?thesis
      proof (cases "is_on_board ?x ?y \<and> cell b ?x ?y = tile")
        case False
        with first second k have ?none
          by (auto simp: scan_direction_def d Let_def)
        then show ?thesis by (rule none)
      next
        case True
        with first second k have
          "scan_direction b tile other xs ys d acc = walk_back xs ys xd yd ?x ?y acc"
          by (simp add: scan_direction_def d Let_def)
        also have "\<dots> = Some (acc @ ray xs ys (xd, yd) (Suc k))"
          unfolding pos by (rule walk_back_returns [OF nz'])
        finally show ?thesis
          using True unfolding pos d by (intro exI [of _ "Suc k"]) simp
      qed
    qed
  qed
qed

section \<open>Validation returns and restores the board\<close>

lemma directions_nonzero: "\<forall>d \<in> set directions. fst d \<noteq> 0 \<or> snd d \<noteq> 0"
  by (simp add: directions_def)

lemma scan_directions_returns:
  assumes "\<forall>d \<in> set ds. fst d \<noteq> 0 \<or> snd d \<noteq> 0"
  shows "\<exists>ns. length ns = length ds \<and>
              scan_directions b tile other xs ys ds acc =
                Some (acc @ concat (map2 (ray xs ys) ds ns)) \<and>
              list_all2 (anchored b tile xs ys) ds ns"
  using assms
proof (induction ds arbitrary: acc)
  case Nil
  then show ?case by simp
next
  case (Cons d ds)
  then have nz: "fst d \<noteq> 0 \<or> snd d \<noteq> 0" by simp
  from scan_direction_returns [OF nz, of b tile other xs ys acc] obtain n where
    n: "scan_direction b tile other xs ys d acc = Some (acc @ ray xs ys d n)"
       "anchored b tile xs ys d n"
    by (auto simp: anchored_def)
  from Cons.IH [of "acc @ ray xs ys d n"] Cons.prems obtain ns where
    ns: "length ns = length ds"
        "scan_directions b tile other xs ys ds (acc @ ray xs ys d n) =
           Some ((acc @ ray xs ys d n) @ concat (map2 (ray xs ys) ds ns))"
        "list_all2 (anchored b tile xs ys) ds ns"
    by auto
  show ?case
    using n ns by (intro exI [of _ "n # ns"]) simp
qed

lemma is_valid_move_not_None: "is_valid_move b tile x y \<noteq> None"
proof -
  from scan_directions_returns [OF directions_nonzero] obtain tiles where
    "scan_directions (set_cell b x y tile) tile
       (if tile = CHR ''X'' then CHR ''O'' else CHR ''X'') x y directions [] = Some tiles"
    by blast
  then show ?thesis
    by (auto simp: is_valid_move_def Let_def returns_def raises_def split: sum.splits)
qed

lemma py_index_in_range:
  "0 \<le> i \<Longrightarrow> nat i < length xs \<Longrightarrow> py_index xs i = Inr (xs ! nat i)"
  by (auto simp: py_index_def Let_def)

lemma wf_grid_nth: "wf_grid b \<Longrightarrow> i < 8 \<Longrightarrow> length (b ! i) = 8"
  by (simp add: wf_grid_def)

lemma wf_grid_length: "wf_grid b \<Longrightarrow> length b = 8"
  by (simp add: wf_grid_def)

lemma is_valid_move_in_range:
  assumes wf: "wf_grid b" and on: "is_on_board x y"
  shows "\<exists>v. is_valid_move b tile x y = returns (v, b)"
proof -
  have x: "0 \<le> x" "nat x < 8" and y: "0 \<le> y" "nat y < 8"
    using on by (auto simp: is_on_board_def)
  have ix: "py_index b x = Inr (b ! nat x)"
    using x wf by (simp add: py_index_in_range wf_grid_length)
  have iy: "py_index (b ! nat x) y = Inr (b ! nat x ! nat y)"
    using x y wf by (simp add: py_index_in_range wf_grid_nth)
  from is_valid_move_not_None [of b tile x y] obtain r where
    r: "is_valid_move b tile x y = Some r" by auto
  have "\<exists>v b'. r = Inr (v, b')"
    using r ix iy
    by (auto simp: is_valid_move_def Let_def returns_def split: option.splits if_splits)
  then obtain v b' where "is_valid_move b tile x y = returns (v, b')"
    using r by (auto simp: returns_def)
  with is_valid_move_board [OF this] show ?thesis by auto
qed

lemma is_valid_move_flips:
  assumes "is_valid_move b tile x y = returns (Some flips, b')"
  shows "flips \<noteq> [] \<and> is_on_board x y \<and> 0 \<le> x \<and> 0 \<le> y \<and>
         py_index b x = Inr (b ! nat x) \<and> py_index (b ! nat x) y = Inr CHR '' '' \<and>
         (\<exists>ns. length ns = length directions \<and>
               flips = concat (map2 (ray x y) directions ns) \<and>
               list_all2 (anchored (set_cell b x y tile) tile x y) directions ns)"
proof -
  obtain col where col: "py_index b x = Inr col"
    using assms by (cases "py_index b x") (simp_all add: is_valid_move_def)
  obtain c where c: "py_index col y = Inr c"
    using assms col by (cases "py_index col y") (simp_all add: is_valid_move_def)
  have ok: "c = CHR '' ''" "is_on_board x y"
    using assms col c by (auto simp: is_valid_move_def split: if_splits)
  then have nonneg: "0 \<le> x" "0 \<le> y" by (auto simp: is_on_board_def)
  let ?other = "if tile = CHR ''X'' then CHR ''O'' else CHR ''X''"
  from scan_directions_returns [OF directions_nonzero, of "set_cell b x y tile" tile ?other x y "[]"]
  obtain ns where ns: "length ns = length directions"
    "scan_directions (set_cell b x y tile) tile ?other x y directions [] =
       Some (concat (map2 (ray x y) directions ns))"
    "list_all2 (anchored (set_cell b x y tile) tile x y) directions ns"
    by auto
  have "flips = concat (map2 (ray x y) directions ns) \<and> flips \<noteq> []"
    using assms col c ok ns(2)
    by (auto simp: is_valid_move_def Let_def split: if_splits)
  moreover have "col = b ! nat x"
    using py_index_Inr [OF col nonneg(1)] by simp
  ultimately show ?thesis
    using ns(1,3) ok nonneg col c by auto
qed

section \<open>Iterating over all squares\<close>

lemma set_squares: "set squares = {0..<8} \<times> {0..<8}"
  by (simp add: squares_def)

lemma wf_grid_fold_put:
  "wf_grid (fold (\<lambda>p d. put d (px p) (py p) (v p)) ps d) = wf_grid d"
  by (induction ps arbitrary: d) simp_all

lemma at_fold_put:
  assumes "wf_grid d" "\<forall>p \<in> set ps. px p < 8 \<and> py p < 8 \<and> v p = F (px p) (py p)"
    and "i < 8" "j < 8"
  shows "at (fold (\<lambda>p d. put d (px p) (py p) (v p)) ps d) i j =
           (if \<exists>p \<in> set ps. px p = i \<and> py p = j then F i j else at d i j)"
  using assms(1,2)
proof (induction ps arbitrary: d)
  case Nil
  then show ?case by simp
next
  case (Cons p ps)
  let ?d = "put d (px p) (py p) (v p)"
  have wf: "wf_grid ?d" using Cons.prems by simp
  have here: "at ?d i j = (if i = px p \<and> j = py p then F i j else at d i j)"
    using Cons.prems by (subst at_put) (simp_all add: wf_grid_length wf_grid_nth)
  have "at (fold (\<lambda>p d. put d (px p) (py p) (v p)) ps ?d) i j =
          (if \<exists>p \<in> set ps. px p = i \<and> py p = j then F i j else at ?d i j)"
    using Cons.prems by (intro Cons.IH [OF wf]) simp
  then show ?case
    using here by auto
qed

lemma grid_eqI:
  assumes "wf_grid g" "wf_grid h" "\<And>i j. i < 8 \<Longrightarrow> j < 8 \<Longrightarrow> at g i j = at h i j"
  shows "g = h"
proof (rule nth_equalityI)
  show "length g = length h" using assms by (simp add: wf_grid_length)
next
  fix i assume "i < length g"
  then have i: "i < 8" using assms by (simp add: wf_grid_length)
  show "g ! i = h ! i"
  proof (rule nth_equalityI)
    show "length (g ! i) = length (h ! i)" using assms i by (simp add: wf_grid_nth)
  next
    fix j assume "j < length (g ! i)"
    then have "j < 8" using assms i by (simp add: wf_grid_nth)
    with assms(3) [OF i] show "g ! i ! j = h ! i ! j" by (simp add: at_def)
  qed
qed

lemma at_fold_put_squares:
  assumes "wf_grid d" "i < 8" "j < 8"
  shows "at (fold (\<lambda>(x, y) d. put d x y (f x y)) squares d) i j = f i j"
proof -
  have "at (fold (\<lambda>p d. put d (fst p) (snd p) (f (fst p) (snd p))) squares d) i j =
          (if \<exists>p \<in> set squares. fst p = i \<and> snd p = j then f i j else at d i j)"
    using assms by (intro at_fold_put) (auto simp: set_squares)
  moreover have "\<exists>p \<in> set squares. fst p = i \<and> snd p = j"
    using assms by (auto simp: set_squares)
  ultimately show ?thesis
    by (simp add: split_def)
qed

lemma at_fold_put_squares_swap:
  assumes "wf_grid d" "i < 8" "j < 8"
  shows "at (fold (\<lambda>(x, y) d. put d y x (f x y)) squares d) i j = f j i"
proof -
  have "at (fold (\<lambda>p d. put d (snd p) (fst p) (f (fst p) (snd p))) squares d) i j =
          (if \<exists>p \<in> set squares. snd p = i \<and> fst p = j then f j i else at d i j)"
    using assms
    by (intro at_fold_put [where F = "\<lambda>i j. f j i"]) (auto simp: set_squares)
  moreover have "\<exists>p \<in> set squares. snd p = i \<and> fst p = j"
    using assms by (auto simp: set_squares)
  ultimately show ?thesis
    by (simp add: split_def)
qed

lemma wf_fold_put_squares:
  "wf_grid (fold (\<lambda>(x, y) d. put d x y (f x y)) squares d) = wf_grid d"
  using wf_grid_fold_put [of fst snd "\<lambda>p. f (fst p) (snd p)" squares d]
  by (simp add: split_def)

lemma wf_fold_put_squares_swap:
  "wf_grid (fold (\<lambda>(x, y) d. put d y x (f x y)) squares d) = wf_grid d"
  using wf_grid_fold_put [of snd fst "\<lambda>p. f (fst p) (snd p)" squares d]
  by (simp add: split_def)

lemma fold_put_squares:
  assumes "wf_grid d" "wf_grid d'"
  shows "fold (\<lambda>(x, y) d. put d x y (f x y)) squares d =
         fold (\<lambda>(x, y) d. put d x y (f x y)) squares d'"
  by (rule grid_eqI) (simp_all add: assms wf_fold_put_squares at_fold_put_squares)

lemma wf_blank: "wf_grid (replicate 8 (replicate 8 c))"
  by (simp add: wf_grid_def)

lemma reset_wf: "wf_grid b \<Longrightarrow> reset b = new_board"
  unfolding reset_def new_board_def
  by (simp only: fold_put_squares [OF _ wf_blank [of "CHR '' ''"]])

lemma wf_reset: "wf_grid (reset b) = wf_grid b"
  by (simp add: reset_def Let_def wf_fold_put_squares)

lemma wf_new_board: "wf_grid new_board"
  by (simp add: new_board_def wf_reset wf_blank)

lemma copy_loop_wf:
  assumes "wf_grid b" "\<forall>p \<in> set ps. fst p < 8 \<and> snd p < 8"
  shows "copy_loop b ps d = returns (fold (\<lambda>(x, y) d. put d x y (at b x y)) ps d)"
  using assms(2)
proof (induction ps arbitrary: d)
  case Nil
  then show ?case by simp
next
  case (Cons p ps)
  obtain x y where p: "p = (x, y)" by (cases p)
  have xy: "x < 8" "y < 8" using Cons.prems by (simp_all add: p)
  have col: "py_index b (int x) = Inr (b ! x)"
    using xy assms(1) by (simp add: py_index_in_range wf_grid_length)
  have c: "py_index (b ! x) (int y) = Inr (at b x y)"
    using xy assms(1) by (simp add: py_index_in_range wf_grid_nth at_def)
  have "copy_loop b ps (put d x y (at b x y)) =
          returns (fold (\<lambda>(x, y) d. put d x y (at b x y)) ps (put d x y (at b x y)))"
    using Cons.prems by (intro Cons.IH) simp
  then show ?case
    by (simp add: p col c)
qed

lemma copy_wf: "wf_grid b \<Longrightarrow> copy b = returns b"
proof -
  assume wf: "wf_grid b"
  have "fold (\<lambda>(x, y) d. put d x y (at b x y)) squares new_board = b"
    by (rule grid_eqI)
       (simp_all add: wf wf_new_board wf_fold_put_squares at_fold_put_squares)
  with copy_loop_wf [OF wf, of squares new_board] show ?thesis
    by (simp add: copy_def set_squares)
qed

lemma cells_ok_at:
  assumes "wf_grid b" "cells_ok b" "i < 8" "j < 8"
  shows "valid_cell (at b i j)"
proof -
  have "b ! i \<in> set b"
    using assms(1,3) by (simp add: wf_grid_length)
  moreover have "b ! i ! j \<in> set (b ! i)"
    using assms(1,3,4) by (simp add: wf_grid_nth)
  ultimately show ?thesis
    using assms(2) by (simp add: cells_ok_def at_def)
qed

lemma at_list_to_array:
  "i < 8 \<Longrightarrow> j < 8 \<Longrightarrow>
   at (list_to_array b) i j =
     (if at b j i = CHR ''X'' then 1 else if at b j i = CHR ''O'' then - 1 else 0)"
  unfolding list_to_array_def
  by (rule at_fold_put_squares) (simp_all add: wf_blank)

section \<open>Valid moves, making a move, a step\<close>

lemma valid_moves_loop_board:
  "valid_moves_loop tile ps b acc = returns (ms, b') \<Longrightarrow> b' = b"
proof (induction ps arbitrary: acc)
  case Nil
  then show ?case by simp
next
  case (Cons p ps)
  obtain x y where p: "p = (x, y)" by (cases p)
  from Cons.prems obtain v b1 where
    v: "is_valid_move b tile (int x) (int y) = returns (v, b1)"
    by (auto simp: p returns_def raises_def split: option.splits sum.splits)
  then have "b1 = b" by (rule is_valid_move_board)
  with Cons.prems v show ?case
    by (auto simp: p returns_def intro: Cons.IH [unfolded returns_def])
qed

lemma valid_moves_loop_returns:
  assumes "wf_grid b" "\<forall>p \<in> set ps. fst p < 8 \<and> snd p < 8"
  shows "\<exists>ms. valid_moves_loop tile ps b acc = returns (ms, b)"
  using assms(2)
proof (induction ps arbitrary: acc)
  case Nil
  then show ?case by simp
next
  case (Cons p ps)
  obtain x y where p: "p = (x, y)" by (cases p)
  have "is_on_board (int x) (int y)"
    using Cons.prems by (simp add: p is_on_board_def)
  from is_valid_move_in_range [OF assms(1) this] obtain v where
    v: "is_valid_move b tile (int x) (int y) = returns (v, b)" by blast
  from Cons.IH [of "if truthy v then acc @ [(int x, int y)] else acc"] Cons.prems
  obtain ms where "valid_moves_loop tile ps b
      (if truthy v then acc @ [(int x, int y)] else acc) = returns (ms, b)"
    by auto
  then show ?case
    using v by (auto simp: p returns_def)
qed

lemma get_valid_moves_board: "get_valid_moves b tile = returns (ms, b') \<Longrightarrow> b' = b"
  unfolding get_valid_moves_def by (rule valid_moves_loop_board)

lemma get_valid_moves_returns: "wf_grid b \<Longrightarrow> \<exists>ms. get_valid_moves b tile = returns (ms, b)"
  unfolding get_valid_moves_def
  by (rule valid_moves_loop_returns) (auto simp: set_squares)

lemma wf_set_cell [simp]: "wf_grid (set_cell b x y v) = wf_grid b"
  by (simp add: set_cell_def)

lemma wf_fold_set_cell [simp]:
  "wf_grid (fold (\<lambda>(x, y) b. set_cell b x y tile) ps b) = wf_grid b"
  by (induction ps arbitrary: b) (simp_all add: split_def)

lemma make_move_returns:
  assumes "make_move b tile x y = returns (made, b')"
  shows "(\<not> made \<and> b' = b \<and> (\<exists>v. is_valid_move b tile x y = returns (v, b) \<and> \<not> truthy v)) \<or>
         (made \<and> (\<exists>tiles. is_valid_move b tile x y = returns (Some tiles, b) \<and>
                          b' = flipped b tile x y tiles))"
proof -
  from assms obtain v b1 where v: "is_valid_move b tile x y = returns (v, b1)"
    by (auto simp: make_move_def returns_def raises_def split: option.splits sum.splits)
  then have b1: "b1 = b" by (rule is_valid_move_board)
  show ?thesis
  proof (cases "truthy v")
    case False
    with assms v b1 show ?thesis
      by (auto simp: make_move_def returns_def)
  next
    case True
    then obtain tiles where "v = Some tiles"
      by (cases v) (simp_all add: truthy_def)
    with assms v b1 True show ?thesis
      by (auto simp: make_move_def returns_def the_list_def flipped_def)
  qed
qed

lemma make_move_legal:
  assumes "is_valid_move b tile x y = returns (Some tiles, b')"
  shows "make_move b tile x y = returns (True, flipped b tile x y tiles)"
proof -
  from is_valid_move_board [OF assms] have "b' = b" .
  moreover from is_valid_move_flips [OF assms] have "tiles \<noteq> []" by simp
  ultimately show ?thesis
    using assms by (simp add: make_move_def returns_def truthy_def the_list_def flipped_def)
qed

lemma wf_flipped [simp]: "wf_grid (flipped b tile x y tiles) = wf_grid b"
  by (simp add: flipped_def)

lemma step_return_wf:
  "wf_grid nb \<Longrightarrow> step_return g nb reward terminal = returns ((reward, nb, terminal), g\<lparr>board := nb\<rparr>)"
  by (simp add: step_return_def copy_wf [unfolded returns_def])

lemma step_invalid:
  assumes wf: "wf_grid (board g)"
    and invalid: "is_valid_move (board g) (player_tile g) x y = returns (v, b')" "\<not> truthy v"
  shows "step g (x, y) = returns ((- 10, board g, False), g)"
proof -
  from is_valid_move_board [OF invalid(1)] have "b' = board g" .
  with invalid show ?thesis
    by (simp add: step_def copy_wf [OF wf, unfolded returns_def] returns_def)
qed

lemma step_legal:
  assumes wf: "wf_grid (board g)"
    and legal: "is_valid_move (board g) (player_tile g) x y = returns (Some tiles, b')"
    and nb: "nb = flipped (board g) (player_tile g) x y tiles"
    and mp: "get_valid_moves nb (player_tile g) = returns (player_moves, nb)"
    and mc: "get_valid_moves nb (computer_tile g) = returns (computer_moves, nb)"
  shows "step g (x, y) =
     returns ((if player_moves = [] \<and> computer_moves = [] then
                 (if player_score g > computer_score g then 1
                  else if player_score g < computer_score g then - 1 else 0)
               else 0,
               nb, player_moves = [] \<and> computer_moves = []),
              g\<lparr>board := nb\<rparr>)"
proof -
  have wf_nb: "wf_grid nb" using wf nb by simp
  have b': "b' = board g" using legal by (rule is_valid_move_board)
  have truthy: "truthy (Some tiles)"
    using is_valid_move_flips [OF legal] by (simp add: truthy_def)
  have mm: "make_move (board g) (player_tile g) x y = returns (True, nb)"
    using make_move_legal [OF legal] by (simp add: nb)
  show ?thesis
    using legal [unfolded returns_def] mm [unfolded returns_def]
      mp [unfolded returns_def] mc [unfolded returns_def] truthy
    by (simp add: step_def Let_def step_return_wf [OF wf_nb] b'
          copy_wf [OF wf, unfolded returns_def])
qed


section \<open>The tiles to flip lie on the board\<close>

lemma coordinate_between:
  fixes x dx :: int
  assumes "0 \<le> x" "x \<le> 7" "0 \<le> x + int m * dx" "x + int m * dx \<le> 7" "j \<le> m"
  shows "0 \<le> x + int j * dx \<and> x + int j * dx \<le> 7"
proof (cases "0 \<le> dx")
  case True
  have "int j * dx \<le> int m * dx"
    using assms(5) True by (intro mult_right_mono) simp_all
  moreover have "0 \<le> int j * dx" using True by simp
  ultimately show ?thesis using assms by linarith
next
  case False
  then have neg: "dx \<le> 0" by simp
  have "int m * dx \<le> int j * dx"
    using assms(5) neg by (intro mult_right_mono_neg) simp_all
  moreover have "int j * dx \<le> 0" using neg by (simp add: mult_nonneg_nonpos)
  ultimately show ?thesis using assms by linarith
qed

lemma between_on_board:
  assumes "is_on_board x y" "is_on_board (x + int m * dx) (y + int m * dy)" "j \<le> m"
  shows "is_on_board (x + int j * dx) (y + int j * dy)"
  using assms coordinate_between [of x m dx j] coordinate_between [of y m dy j]
  by (simp add: is_on_board_def)

lemma in_ray: "p \<in> set (ray x y d n) \<Longrightarrow>
  \<exists>j. 1 \<le> j \<and> j \<le> n \<and> p = (x + int j * fst d, y + int j * snd d)"
  by (auto simp: ray_def)

lemma in_concat_map2:
  "p \<in> set (concat (map2 f ds ns)) \<Longrightarrow> \<exists>(d, n) \<in> set (zip ds ns). p \<in> set (f d n)"
  by auto

lemma is_valid_move_flip_anchor:
  assumes "is_valid_move b tile x y = returns (Some flips, b')" "p \<in> set flips"
  shows "\<exists>d n j. d \<in> set directions \<and> 1 \<le> j \<and> j \<le> n \<and>
           p = (x + int j * fst d, y + int j * snd d) \<and>
           is_on_board (x + int (Suc n) * fst d) (y + int (Suc n) * snd d) \<and>
           cell (set_cell b x y tile) (x + int (Suc n) * fst d) (y + int (Suc n) * snd d) = tile"
proof -
  from is_valid_move_flips [OF assms(1)] obtain ns where
    ns: "flips = concat (map2 (ray x y) directions ns)"
        "list_all2 (anchored (set_cell b x y tile) tile x y) directions ns"
    by blast
  from assms(2) ns(1) in_concat_map2 [of p "ray x y" directions ns] obtain d n where
    dn: "(d, n) \<in> set (zip directions ns)" "p \<in> set (ray x y d n)"
    by auto
  from in_ray [OF dn(2)] obtain j where
    j: "1 \<le> j" "j \<le> n" "p = (x + int j * fst d, y + int j * snd d)" by blast
  have "anchored (set_cell b x y tile) tile x y d n"
    using ns(2) dn(1) by (auto simp: list_all2_iff)
  with j have "is_on_board (x + int (Suc n) * fst d) (y + int (Suc n) * snd d) \<and>
     cell (set_cell b x y tile) (x + int (Suc n) * fst d) (y + int (Suc n) * snd d) = tile"
    by (auto simp: anchored_def)
  moreover have "d \<in> set directions" using dn(1) by (rule set_zip_leftD)
  ultimately show ?thesis using j by blast
qed

lemma is_valid_move_flips_on_board:
  assumes "is_valid_move b tile x y = returns (Some flips, b')" "p \<in> set flips"
  shows "is_on_board (fst p) (snd p)"
proof -
  from is_valid_move_flip_anchor [OF assms] obtain d n j where
    *: "j \<le> n" "p = (x + int j * fst d, y + int j * snd d)"
       "is_on_board (x + int (Suc n) * fst d) (y + int (Suc n) * snd d)"
    by blast
  have "is_on_board x y" using is_valid_move_flips [OF assms(1)] by simp
  from between_on_board [OF this *(3), of j] *(1,2) show ?thesis by simp
qed

lemma cell_set_cell_other:
  assumes "wf_grid b" "is_on_board x y" "is_on_board x' y'" "x' \<noteq> x \<or> y' \<noteq> y"
  shows "cell (set_cell b x y v) x' y' = cell b x' y'"
proof -
  have "nat x < 8" "nat y < 8" "nat x' \<noteq> nat x \<or> nat y' \<noteq> nat y"
    using assms by (auto simp: is_on_board_def)
  then show ?thesis
    using assms(1) by (auto simp: cell_def set_cell_def at_put wf_grid_length wf_grid_nth)
qed

lemma cells_ok_cell:
  assumes "wf_grid b" "cells_ok b" "is_on_board x y"
  shows "valid_cell (cell b x y)"
proof -
  have "nat x < 8" "nat y < 8" using assms(3) by (auto simp: is_on_board_def)
  from cells_ok_at [OF assms(1,2) this] show ?thesis by (simp add: cell_def)
qed

lemma is_valid_move_tile_on_board:
  assumes wf: "wf_grid b" and ok: "cells_ok b"
    and valid: "is_valid_move b tile x y = returns (Some flips, b')"
  shows "valid_cell tile"
proof -
  from is_valid_move_flips [OF valid] have on: "is_on_board x y" and "flips \<noteq> []"
    by simp_all
  then obtain p where "p \<in> set flips" by (cases flips) auto
  from is_valid_move_flip_anchor [OF valid this] obtain d n where
    d: "d \<in> set directions"
    and anchor: "is_on_board (x + int (Suc n) * fst d) (y + int (Suc n) * snd d)"
      "cell (set_cell b x y tile) (x + int (Suc n) * fst d) (y + int (Suc n) * snd d) = tile"
    by blast
  have "fst d \<noteq> 0 \<or> snd d \<noteq> 0" using d directions_nonzero by blast
  then have "x + int (Suc n) * fst d \<noteq> x \<or> y + int (Suc n) * snd d \<noteq> y"
    by auto
  from cell_set_cell_other [OF wf on anchor(1) this] anchor(2)
  have "cell b (x + int (Suc n) * fst d) (y + int (Suc n) * snd d) = tile" by simp
  with cells_ok_cell [OF wf ok anchor(1)] show ?thesis by simp
qed

section \<open>What every reachable board satisfies\<close>

lemma valid_cell_update:
  assumes "\<forall>c \<in> set col. valid_cell c" "valid_cell v"
  shows "\<forall>c \<in> set (col[y := v]). valid_cell c"
proof
  fix c assume "c \<in> set (col[y := v])"
  then have "c = v \<or> c \<in> set col"
    using set_update_subset_insert [of col y v] by blast
  then show "valid_cell c" using assms by blast
qed

lemma cells_ok_put:
  assumes "cells_ok b" "valid_cell v"
  shows "cells_ok (put b x y v)"
proof (cases "x < length b")
  case False
  then show ?thesis using assms(1) by (simp add: put_def list_update_beyond)
next
  case True
  then have "b ! x \<in> set b" by simp
  then have "\<forall>c \<in> set (b ! x). valid_cell c"
    using assms(1) by (simp add: cells_ok_def)
  then have col: "\<forall>c \<in> set ((b ! x)[y := v]). valid_cell c"
    using assms(2) by (rule valid_cell_update)
  show ?thesis
    unfolding cells_ok_def put_def
  proof
    fix c assume "c \<in> set (b[x := (b ! x)[y := v]])"
    then have "c = (b ! x)[y := v] \<or> c \<in> set b"
      using set_update_subset_insert [of b x "(b ! x)[y := v]"] by blast
    then show "\<forall>c' \<in> set c. valid_cell c'"
    proof
      assume "c = (b ! x)[y := v]"
      with col show ?thesis by simp
    next
      assume "c \<in> set b"
      with assms(1) show ?thesis by (simp add: cells_ok_def)
    qed
  qed
qed

lemma cells_ok_fold_set_cell:
  assumes "valid_cell tile"
  shows "cells_ok d \<Longrightarrow> cells_ok (fold (\<lambda>(x, y) b. set_cell b x y tile) tiles d)"
proof (induction tiles arbitrary: d)
  case Nil
  then show ?case by simp
next
  case (Cons p tiles)
  have "cells_ok (set_cell d (fst p) (snd p) tile)"
    unfolding set_cell_def using Cons.prems assms by (rule cells_ok_put)
  from Cons.IH [OF this] show ?case by (simp add: split_def)
qed

lemma cells_ok_flipped:
  assumes "cells_ok b" "valid_cell tile"
  shows "cells_ok (flipped b tile x y tiles)"
proof -
  have "cells_ok (set_cell b x y tile)"
    unfolding set_cell_def using assms by (rule cells_ok_put)
  then show ?thesis
    unfolding flipped_def by (rule cells_ok_fold_set_cell [OF assms(2)])
qed

lemma cells_ok_new_board: "cells_ok new_board"
  by code_simp

lemma make_move_invariant:
  assumes "wf_grid b" "cells_ok b" "make_move b tile x y = returns (made, b')"
  shows "wf_grid b' \<and> cells_ok b'"
proof -
  from make_move_returns [OF assms(3)] show ?thesis
  proof
    assume "\<not> made \<and> b' = b \<and> (\<exists>v. is_valid_move b tile x y = returns (v, b) \<and> \<not> truthy v)"
    then show ?thesis using assms by simp
  next
    assume "made \<and> (\<exists>tiles. is_valid_move b tile x y = returns (Some tiles, b) \<and>
                          b' = flipped b tile x y tiles)"
    then obtain tiles where
      tiles: "is_valid_move b tile x y = returns (Some tiles, b)" "b' = flipped b tile x y tiles"
      by blast
    from is_valid_move_tile_on_board [OF assms(1,2) tiles(1)]
    show ?thesis using assms tiles(2) by (simp add: cells_ok_flipped)
  qed
qed

lemma reachable_invariant: "reachable b \<Longrightarrow> wf_grid b \<and> cells_ok b"
proof (induction rule: reachable.induct)
  case reachable_new
  show ?case by (simp add: wf_new_board cells_ok_new_board)
next
  case (reachable_reset b)
  then show ?case by (simp add: reset_wf wf_new_board cells_ok_new_board)
next
  case (reachable_move b tile x y made b')
  then show ?case using make_move_invariant by blast
qed

lemma length_concat_wf: "wf_grid b \<Longrightarrow> length (concat b) = 64"
proof -
  assume wf: "wf_grid b"
  then have "map length b = replicate (length b) 8"
    by (intro map_replicate_const [THEN [2] trans] map_cong) (auto simp: wf_grid_def)
  then show ?thesis
    using wf by (simp add: length_concat wf_grid_def sum_list_replicate)
qed

lemma count_three:
  assumes "\<forall>c \<in> set cs. valid_cell c"
  shows "length (filter (\<lambda>c. c = CHR ''X'') cs) + length (filter (\<lambda>c. c = CHR ''O'') cs) +
         length (filter (\<lambda>c. c = CHR '' '') cs) = length cs"
  using assms by (induction cs) (auto simp: valid_cell_def)

lemma count_cells_sum:
  assumes "wf_grid b" "cells_ok b"
  shows "count_cells b CHR ''X'' + count_cells b CHR ''O'' + count_cells b CHR '' '' = 64"
proof -
  have "\<forall>c \<in> set (concat b). valid_cell c"
    using assms(2) by (auto simp: cells_ok_def)
  from count_three [OF this] show ?thesis
    by (simp add: count_cells_def length_concat_wf [OF assms(1)])
qed

lemma map_at_squares: "wf_grid b \<Longrightarrow> map (\<lambda>(x, y). at b x y) squares = concat b"
proof -
  assume wf: "wf_grid b"
  have col: "map (\<lambda>y. b ! x ! y) [0..<8] = b ! x" if "x < 8" for x
    using wf_grid_nth [OF wf that] map_nth [of "b ! x"] by simp
  have "map (\<lambda>(x, y). at b x y) squares = concat (map (\<lambda>x. map (\<lambda>y. b ! x ! y) [0..<8]) [0..<8])"
    by (simp add: squares_def List.product_concat_map map_concat comp_def at_def)
  also have "map (\<lambda>x. map (\<lambda>y. b ! x ! y) [0..<8]) [0..<8] = map (\<lambda>x. b ! x) [0..<8]"
    by (rule map_cong) (simp_all add: col)
  also have "\<dots> = b"
    using wf_grid_length [OF wf] map_nth [of b] by simp
  finally show ?thesis .
qed

lemma fold_score:
  "fold (\<lambda>c (x_score, o_score).
           if c = CHR ''X'' then (x_score + 1, o_score)
           else if c = CHR ''O'' then (x_score, o_score + 1)
           else (x_score, o_score)) cs (xs, os) =
   (xs + int (length (filter (\<lambda>c. c = CHR ''X'') cs)),
    os + int (length (filter (\<lambda>c. c = CHR ''O'') cs)))"
  by (induction cs arbitrary: xs os) simp_all

lemma get_score_count:
  assumes "wf_grid b"
  shows "get_score b = [CHR ''X'' \<mapsto> int (count_cells b CHR ''X''),
                        CHR ''O'' \<mapsto> int (count_cells b CHR ''O'')]"
proof -
  let ?h = "\<lambda>c (x_score :: int, o_score :: int).
              if c = CHR ''X'' then (x_score + 1, o_score)
              else if c = CHR ''O'' then (x_score, o_score + 1)
              else (x_score, o_score)"
  have "fold (\<lambda>(x, y) (x_score, o_score).
                if at b x y = CHR ''X'' then (x_score + 1, o_score)
                else if at b x y = CHR ''O'' then (x_score, o_score + 1)
                else (x_score, o_score)) squares (0, 0) =
        fold (?h \<circ> (\<lambda>(x, y). at b x y)) squares (0, 0)"
    by (simp add: comp_def split_def)
  also have "\<dots> = fold ?h (concat b) (0, 0)"
    by (simp only: fold_map [symmetric] map_at_squares [OF assms])
  also have "\<dots> = (int (count_cells b CHR ''X''), int (count_cells b CHR ''O''))"
    by (simp add: fold_score count_cells_def)
  finally show ?thesis
    by (simp add: get_score_def)
qed


section \<open>The properties of the specification\<close>

subsection \<open>C1: the reward of a step that ends the game\<close>

text \<open>
  C1 asks that a step into a terminal position returns the reward +1, -1 or 0 according
  to the final scores on the board. \<open>step\<close> compares the fields \<open>player_score\<close> and
  \<open>computer_score\<close>, which only \<open>run_interactive\<close> fills from \<open>get_score\<close>; \<open>reset\<close>
  sets both to 0 and \<open>step\<close> never writes them. In the training game the moves (2, 4)
  and (4, 2) are legal for black, the second one ends the game with 6 black tiles and
  no white tile, and the reward is 0.
\<close>

theorem step_terminal_reward_ignores_board:
  "(case step training_game (2, 4) of
      Some (Inr (first, g1)) \<Rightarrow>
        (case step g1 (4, 2) of
           Some (Inr ((reward, b2, terminal), g2)) \<Rightarrow>
             terminal \<and> reward = 0 \<and>
             get_score b2 CHR ''X'' = Some 6 \<and> get_score b2 CHR ''O'' = Some 0
         | _ \<Rightarrow> False)
    | _ \<Rightarrow> False)"
  by code_simp

subsection \<open>C2: a step with an invalid move\<close>

text \<open>
  C2: on a well-formed board, when \<open>is_valid_move\<close> returns \<open>False\<close> for the action and
  the player's tile, \<open>step\<close> returns the reward -10, the board as it was and the terminal
  flag \<open>False\<close>, and the game (board, tiles, scores) is what it was before the call.
\<close>

theorem step_invalid_move_penalty:
  assumes "wf_grid (board g)"
    and "is_valid_move (board g) (player_tile g) x y = returns (None, b')"
  shows "step g (x, y) = returns ((- 10, board g, False), g)"
  using assms by (intro step_invalid [where v = None]) (simp_all add: truthy_def)

theorem step_invalid_move_penalty_witness:
  "wf_grid (board training_game) \<and>
   is_valid_move (board training_game) (player_tile training_game) 0 0 =
     returns (None, board training_game) \<and>
   step training_game (0, 0) = returns ((- 10, board training_game, False), training_game)"
proof -
  have wf: "wf_grid (board training_game)"
    by code_simp
  have invalid: "is_valid_move (board training_game) (player_tile training_game) 0 0 =
     returns (None, board training_game)"
    by code_simp
  from step_invalid_move_penalty [OF wf invalid] wf invalid show ?thesis
    by simp
qed

subsection \<open>C3: the terminal flag\<close>

text \<open>
  C3: for a game whose board is well formed and whose two tiles are \<open>'X'\<close> and \<open>'O'\<close>,
  a step with a legal action returns the board that \<open>make_move\<close> with the player's tile
  leaves (the action's cell and the tiles to flip set to the player's tile), that board
  is the board of the game after the step, and the terminal flag returned is true
  exactly when \<open>get_valid_moves\<close> on that board is empty for black and for white.
\<close>

theorem step_terminal_iff_no_moves:
  assumes wf: "wf_grid (board g)"
    and tiles: "(player_tile g = CHR ''X'' \<and> computer_tile g = CHR ''O'') \<or>
                (player_tile g = CHR ''O'' \<and> computer_tile g = CHR ''X'')"
    and legal: "is_valid_move (board g) (player_tile g) x y = returns (Some flips, b')"
    and nb: "nb = flipped (board g) (player_tile g) x y flips"
  shows "make_move (board g) (player_tile g) x y = returns (True, nb) \<and>
         (\<exists>reward black_moves white_moves.
            step g (x, y) =
              returns ((reward, nb, black_moves = [] \<and> white_moves = []), g\<lparr>board := nb\<rparr>) \<and>
            get_valid_moves nb CHR ''X'' = returns (black_moves, nb) \<and>
            get_valid_moves nb CHR ''O'' = returns (white_moves, nb))"
proof -
  have wf_nb: "wf_grid nb" using wf by (simp add: nb)
  from get_valid_moves_returns [OF wf_nb] obtain mp where
    mp: "get_valid_moves nb (player_tile g) = returns (mp, nb)" by blast
  from get_valid_moves_returns [OF wf_nb] obtain mc where
    mc: "get_valid_moves nb (computer_tile g) = returns (mc, nb)" by blast
  let ?r = "if mp = [] \<and> mc = [] then (if player_score g > computer_score g then 1
                  else if player_score g < computer_score g then - 1 else 0) else (0::int)"
  have st: "step g (x, y) = returns ((?r, nb, mp = [] \<and> mc = []), g\<lparr>board := nb\<rparr>)"
    using step_legal [OF wf legal nb mp mc] by simp
  have mm: "make_move (board g) (player_tile g) x y = returns (True, nb)"
    using make_move_legal [OF legal] by (simp add: nb)
  from tiles have "\<exists>reward black_moves white_moves.
            step g (x, y) =
              returns ((reward, nb, black_moves = [] \<and> white_moves = []), g\<lparr>board := nb\<rparr>) \<and>
            get_valid_moves nb CHR ''X'' = returns (black_moves, nb) \<and>
            get_valid_moves nb CHR ''O'' = returns (white_moves, nb)"
  proof
    assume "player_tile g = CHR ''X'' \<and> computer_tile g = CHR ''O''"
    then have "step g (x, y) =
          returns ((?r, nb, mp = [] \<and> mc = []), g\<lparr>board := nb\<rparr>) \<and>
        get_valid_moves nb CHR ''X'' = returns (mp, nb) \<and>
        get_valid_moves nb CHR ''O'' = returns (mc, nb)"
      using st mp mc by simp
    then show ?thesis by blast
  next
    assume "player_tile g = CHR ''O'' \<and> computer_tile g = CHR ''X''"
    then have "step g (x, y) =
          returns ((?r, nb, mc = [] \<and> mp = []), g\<lparr>board := nb\<rparr>) \<and>
        get_valid_moves nb CHR ''X'' = returns (mc, nb) \<and>
        get_valid_moves nb CHR ''O'' = returns (mp, nb)"
      using st mp mc by (simp add: conj_commute)
    then show ?thesis by blast
  qed
  with mm show ?thesis by simp
qed

theorem step_terminal_iff_no_moves_witness:
  "wf_grid (board training_game) \<and>
   ((player_tile training_game = CHR ''X'' \<and> computer_tile training_game = CHR ''O'') \<or>
    (player_tile training_game = CHR ''O'' \<and> computer_tile training_game = CHR ''X'')) \<and>
   is_valid_move (board training_game) (player_tile training_game) 2 4 =
     returns (Some [(3, 4)], board training_game) \<and>
   make_move (board training_game) (player_tile training_game) 2 4 =
     returns (True, flipped (board training_game) (player_tile training_game) 2 4 [(3, 4)]) \<and>
   (\<exists>reward black_moves white_moves.
      step training_game (2, 4) =
        returns ((reward, flipped (board training_game) (player_tile training_game) 2 4 [(3, 4)],
                  black_moves = [] \<and> white_moves = []),
                 training_game
                   \<lparr>board := flipped (board training_game) (player_tile training_game) 2 4 [(3, 4)]\<rparr>) \<and>
      get_valid_moves (flipped (board training_game) (player_tile training_game) 2 4 [(3, 4)])
        CHR ''X'' =
        returns (black_moves,
                 flipped (board training_game) (player_tile training_game) 2 4 [(3, 4)]) \<and>
      get_valid_moves (flipped (board training_game) (player_tile training_game) 2 4 [(3, 4)])
        CHR ''O'' =
        returns (white_moves,
                 flipped (board training_game) (player_tile training_game) 2 4 [(3, 4)]))"
proof -
  have wf: "wf_grid (board training_game)"
    by code_simp
  have tiles:
    "(player_tile training_game = CHR ''X'' \<and> computer_tile training_game = CHR ''O'') \<or>
     (player_tile training_game = CHR ''O'' \<and> computer_tile training_game = CHR ''X'')"
    by code_simp
  have legal: "is_valid_move (board training_game) (player_tile training_game) 2 4 =
     returns (Some [(3, 4)], board training_game)"
    by code_simp
  from step_terminal_iff_no_moves [OF wf tiles legal refl] wf tiles legal show ?thesis
    by simp
qed

subsection \<open>C4: validation leaves the board as it was\<close>

text \<open>
  C4: on a well-formed board, for every tile and every coordinate on the board,
  \<open>is_valid_move\<close> returns (a list of tiles or \<open>False\<close>) and the board after the call
  is the board before the call.
\<close>

theorem is_valid_move_restores_board:
  assumes "wf_grid b" "is_on_board x y"
  shows "\<exists>v. is_valid_move b tile x y = returns (v, b)"
  using assms by (rule is_valid_move_in_range)

theorem is_valid_move_restores_board_witness:
  "wf_grid new_board \<and> is_on_board 2 4 \<and>
   (\<exists>v. is_valid_move new_board CHR ''X'' 2 4 = returns (v, new_board))"
proof -
  have wf: "wf_grid new_board" by code_simp
  have on: "is_on_board 2 4" by code_simp
  from is_valid_move_restores_board [OF wf on] wf on show ?thesis
    by blast
qed

subsection \<open>C5: the numeric state and back\<close>

text \<open>
  C5: for a well-formed board \<open>b\<close> whose cells are blanks, \<open>'X'\<close> or \<open>'O'\<close>,
  \<open>list_to_array\<close> followed by \<open>array_to_list\<close> (on any well-formed board object, \<open>b\<close>
  itself included) gives the board \<open>b\<close> back.
\<close>

theorem array_to_list_list_to_array:
  assumes b: "wf_grid b" "cells_ok b" and b0: "wf_grid b0"
  shows "array_to_list b0 (list_to_array b) = b"
  unfolding array_to_list_def
proof (rule grid_eqI)
  fix i j :: nat assume ij: "i < 8" "j < 8"
  show "at (fold (\<lambda>(i, j) d. put d j i
              (if at (list_to_array b) i j = 1 then CHR ''X''
               else if at (list_to_array b) i j = - 1 then CHR ''O'' else CHR '' ''))
            squares b0) i j = at b i j"
    using cells_ok_at [OF b ij]
    by (subst at_fold_put_squares_swap [OF b0 ij])
       (auto simp: at_list_to_array ij valid_cell_def)
qed (simp_all add: b b0 wf_fold_put_squares_swap)

theorem array_to_list_list_to_array_witness:
  "wf_grid two_in_a_row \<and> cells_ok two_in_a_row \<and> wf_grid new_board \<and>
   array_to_list new_board (list_to_array two_in_a_row) = two_in_a_row"
proof -
  have b: "wf_grid two_in_a_row" "cells_ok two_in_a_row" by code_simp+
  have b0: "wf_grid new_board" by code_simp
  from array_to_list_list_to_array [OF b b0] b b0 show ?thesis
    by simp
qed

subsection \<open>C6: the legal moves of black on the initial board\<close>

text \<open>
  C6 gives the legal moves of black on the initial board as (2, 3), (3, 2), (4, 5) and
  (5, 4). \<open>reset\<close> puts black on (3, 3) and (4, 4) and white on (3, 4) and (4, 3), and on
  that board \<open>get_valid_moves\<close> returns another list for black.
\<close>

theorem initial_moves_of_black_counterexample:
  "get_valid_moves (reset new_board) CHR ''X'' =
     returns ([(2, 4), (3, 5), (4, 2), (5, 3)], reset new_board) \<and>
   set [(2, 4), (3, 5), (4, 2), (5, 3)] \<noteq> {(2, 3), (3, 2), (4, 5), (5, 4) :: int \<times> int}"
  by code_simp

text \<open>
  C6, amended: on the board that \<open>reset\<close> leaves, (3, 3) and (4, 4) are black, (3, 4) and
  (4, 3) are white, and the legal moves of black are (2, 4), (3, 5), (4, 2) and (5, 3),
  in this order.
\<close>

theorem initial_moves_of_black:
  assumes "wf_grid b"
  shows "cell (reset b) 3 3 = CHR ''X'' \<and> cell (reset b) 3 4 = CHR ''O'' \<and>
         cell (reset b) 4 3 = CHR ''O'' \<and> cell (reset b) 4 4 = CHR ''X'' \<and>
         get_valid_moves (reset b) CHR ''X'' =
           returns ([(2, 4), (3, 5), (4, 2), (5, 3)], reset b)"
proof -
  have "cell new_board 3 3 = CHR ''X'' \<and> cell new_board 3 4 = CHR ''O'' \<and>
        cell new_board 4 3 = CHR ''O'' \<and> cell new_board 4 4 = CHR ''X'' \<and>
        get_valid_moves new_board CHR ''X'' =
          returns ([(2, 4), (3, 5), (4, 2), (5, 3)], new_board)"
    by code_simp
  then show ?thesis
    by (simp only: reset_wf [OF assms])
qed

theorem initial_moves_of_black_witness:
  "wf_grid two_in_a_row \<and>
   cell (reset two_in_a_row) 3 3 = CHR ''X'' \<and> cell (reset two_in_a_row) 3 4 = CHR ''O'' \<and>
   cell (reset two_in_a_row) 4 3 = CHR ''O'' \<and> cell (reset two_in_a_row) 4 4 = CHR ''X'' \<and>
   get_valid_moves (reset two_in_a_row) CHR ''X'' =
     returns ([(2, 4), (3, 5), (4, 2), (5, 3)], reset two_in_a_row)"
proof -
  have wf: "wf_grid two_in_a_row" by code_simp
  from initial_moves_of_black [OF wf] wf show ?thesis
    by simp
qed

subsection \<open>C7: coordinates off the board\<close>

text \<open>
  C7 asks that \<open>is_valid_move\<close> returns \<open>False\<close> for every coordinate off the board.
  The method reads \<open>self.board[x_start][y_start]\<close> before it tests \<open>is_on_board\<close>, so
  on the initial board the call with the tile \<open>'X'\<close> and the coordinates (8, 0) raises
  IndexError.
\<close>

theorem is_valid_move_off_board_raises:
  "is_valid_move new_board CHR ''X'' 8 0 = raises IndexError"
  by code_simp

theorem is_valid_move_off_board_raises_witness:
  "is_valid_move new_board CHR ''X'' 8 0 = raises IndexError \<and>
   is_valid_move new_board CHR ''X'' 8 0 \<noteq> returns (None, new_board)"
  using is_valid_move_off_board_raises by simp

subsection \<open>C8: every cell is blank, black or white\<close>

text \<open>
  C8: every board reachable from the constructor by \<open>reset\<close> and \<open>make_move\<close> (with any
  tile and any coordinates) has 8 columns of 8 cells, each cell is a blank, \<open>'X'\<close> or
  \<open>'O'\<close>, and the two scores of \<open>get_score\<close> and the number of blanks add up to 64.
\<close>

theorem reachable_cells_add_up:
  assumes "reachable b"
  shows "wf_grid b \<and> cells_ok b \<and>
         (\<exists>black white. get_score b CHR ''X'' = Some (int black) \<and>
                         get_score b CHR ''O'' = Some (int white) \<and>
                         black + white + count_cells b CHR '' '' = 64)"
proof -
  from reachable_invariant [OF assms] have inv: "wf_grid b" "cells_ok b" by simp_all
  from get_score_count [OF inv(1)] count_cells_sum [OF inv] inv show ?thesis
    by auto
qed

theorem reachable_cells_add_up_witness:
  "reachable (flipped new_board CHR ''X'' 2 4 [(3, 4)]) \<and>
   wf_grid (flipped new_board CHR ''X'' 2 4 [(3, 4)]) \<and>
   cells_ok (flipped new_board CHR ''X'' 2 4 [(3, 4)]) \<and>
   (\<exists>black white.
      get_score (flipped new_board CHR ''X'' 2 4 [(3, 4)]) CHR ''X'' = Some (int black) \<and>
      get_score (flipped new_board CHR ''X'' 2 4 [(3, 4)]) CHR ''O'' = Some (int white) \<and>
      black + white + count_cells (flipped new_board CHR ''X'' 2 4 [(3, 4)]) CHR '' '' = 64)"
proof -
  have "make_move new_board CHR ''X'' 2 4 =
          returns (True, flipped new_board CHR ''X'' 2 4 [(3, 4)])"
    by code_simp
  with reachable_new have r: "reachable (flipped new_board CHR ''X'' 2 4 [(3, 4)])"
    by (rule reachable_move)
  from reachable_cells_add_up [OF r] r show ?thesis
    by simp
qed

subsection \<open>C9: the order of the tiles to flip\<close>

text \<open>
  C9 asks that, within a direction, the captured cell nearest to the move comes first.
  \<open>is_valid_move\<close> collects the cells while it walks back from the far end, so on the
  board with white on (1, 0) and (2, 0) and black on (3, 0) the move of black on (0, 0)
  returns (2, 0) before (1, 0).
\<close>

theorem flips_nearest_first_counterexample:
  "is_valid_move two_in_a_row CHR ''X'' 0 0 =
     returns (Some [(2, 0), (1, 0)], two_in_a_row) \<and>
   is_valid_move two_in_a_row CHR ''X'' 0 0 \<noteq>
     returns (Some [(1, 0), (2, 0)], two_in_a_row)"
  by code_simp

text \<open>
  C9, amended: the list that \<open>is_valid_move\<close> returns for a legal move is made of one
  group for each of the 8 directions, in the order of \<open>directions\<close>; the group of a
  direction holds the cells at the distances \<open>n, n - 1, \<dots>, 1\<close> from the move in that
  direction (\<open>ray\<close>), the farthest cell first and the nearest last.
\<close>

theorem flips_by_direction_farthest_first:
  assumes "is_valid_move b tile x y = returns (Some flips, b')"
  shows "\<exists>ns. length ns = length directions \<and>
              flips = concat (map2 (ray x y) directions ns)"
  using is_valid_move_flips [OF assms] by blast

theorem flips_by_direction_farthest_first_witness:
  "is_valid_move two_in_a_row CHR ''X'' 0 0 =
     returns (Some [(2, 0), (1, 0)], two_in_a_row) \<and>
   (\<exists>ns. length ns = length directions \<and>
         [(2, 0), (1, 0)] = concat (map2 (ray 0 0) directions ns))"
proof -
  have valid: "is_valid_move two_in_a_row CHR ''X'' 0 0 =
     returns (Some [(2, 0), (1, 0)], two_in_a_row)"
    by code_simp
  from flips_by_direction_farthest_first [OF valid] valid show ?thesis
    by simp
qed

subsection \<open>C10: a step plays the player's tile only\<close>

text \<open>
  C10: on a well-formed board, whenever the validation of the action returns, \<open>step\<close>
  returns, and the game after the step has the \<open>player_tile\<close> and the \<open>computer_tile\<close>
  of the game before. When the action is legal, the game after the step is the game
  before it with the board that \<open>make_move\<close> with the player's tile and the action
  leaves, and nothing else changed; when the action is not legal, it is the game before
  it. (When the validation raises, so does \<open>step\<close>, before any assignment.)
\<close>

theorem step_keeps_side:
  assumes wf: "wf_grid (board g)"
    and v: "is_valid_move (board g) (player_tile g) x y = returns (v, b1)"
    and nb: "nb = flipped (board g) (player_tile g) x y (the_list v)"
  shows "\<exists>res g'. step g (x, y) = returns (res, g') \<and>
           player_tile g' = player_tile g \<and> computer_tile g' = computer_tile g \<and>
           (if truthy v
            then make_move (board g) (player_tile g) x y = returns (True, nb) \<and>
                 g' = g\<lparr>board := nb\<rparr>
            else g' = g)"
proof (cases "truthy v")
  case False
  from step_invalid [OF wf v False] False show ?thesis
    by (intro exI [of _ "(- 10, board g, False)"] exI [of _ g]) simp
next
  case True
  then obtain tiles where tiles: "v = Some tiles"
    by (cases v) (simp_all add: truthy_def)
  have legal: "is_valid_move (board g) (player_tile g) x y = returns (Some tiles, b1)"
    using v tiles by simp
  have nb': "nb = flipped (board g) (player_tile g) x y tiles"
    using nb tiles by (simp add: the_list_def)
  have wf_nb: "wf_grid nb" using wf by (simp add: nb')
  from get_valid_moves_returns [OF wf_nb] obtain mp where
    mp: "get_valid_moves nb (player_tile g) = returns (mp, nb)" by blast
  from get_valid_moves_returns [OF wf_nb] obtain mc where
    mc: "get_valid_moves nb (computer_tile g) = returns (mc, nb)" by blast
  have "make_move (board g) (player_tile g) x y = returns (True, nb)"
    using make_move_legal [OF legal] by (simp add: nb')
  with step_legal [OF wf legal nb' mp mc] True show ?thesis
    by simp
qed

theorem step_keeps_side_witness:
  "wf_grid (board training_game) \<and>
   is_valid_move (board training_game) (player_tile training_game) 2 4 =
     returns (Some [(3, 4)], board training_game) \<and>
   truthy (Some [(3, 4)]) \<and>
   (\<exists>res g'. step training_game (2, 4) = returns (res, g') \<and>
      player_tile g' = player_tile training_game \<and>
      computer_tile g' = computer_tile training_game \<and>
      make_move (board training_game) (player_tile training_game) 2 4 =
        returns (True, flipped (board training_game) (player_tile training_game) 2 4 [(3, 4)]) \<and>
      g' = training_game
             \<lparr>board := flipped (board training_game) (player_tile training_game) 2 4 [(3, 4)]\<rparr>)"
proof -
  have wf: "wf_grid (board training_game)"
    by code_simp
  have legal: "is_valid_move (board training_game) (player_tile training_game) 2 4 =
     returns (Some [(3, 4)], board training_game)"
    by code_simp
  have t: "truthy (Some [(3, 4)])"
    by (simp add: truthy_def)
  from step_keeps_side [OF wf legal refl] t wf legal show ?thesis
    by (simp add: the_list_def)
qed

end
